theory Spec2Isabelle
  imports Complex_Main
begin

section \<open>The canary comparator (pkg/canary/comparator/comparator.go)\<close>

subsection \<open>Time, durations and float64\<close>

text \<open>
  A \<^verbatim>\<open>time.Time\<close> is an instant; the comparator only adds durations to instants,
  subtracts instants and compares them, so an instant is its number of nanoseconds since
  the epoch. A \<^verbatim>\<open>time.Duration\<close> is a signed 64-bit count of nanoseconds.
\<close>

type_synonym time = int
type_synonym duration = int

definition Second :: duration where
  "Second = 1000000000"

definition maxDuration :: duration where
  "maxDuration = 2 ^ 63 - 1"

definition minDuration :: duration where
  "minDuration = - (2 ^ 63)"

text \<open>Unary minus on a \<^verbatim>\<open>Duration\<close>: an int64 negation, which leaves the least value as it is.\<close>

definition neg :: "duration \<Rightarrow> duration" where
  "neg d = (if d = minDuration then minDuration else - d)"

definition Add :: "time \<Rightarrow> duration \<Rightarrow> time" where
  "Add t d = t + d"

definition Before :: "time \<Rightarrow> time \<Rightarrow> bool" where
  "Before t u = (t < u)"

definition Equal :: "time \<Rightarrow> time \<Rightarrow> bool" where
  "Equal t u = (t = u)"

text \<open>\<^verbatim>\<open>t.Sub(u)\<close> is the duration \<open>t - u\<close>, saturated at the ends of the int64 range.\<close>

definition Sub :: "time \<Rightarrow> time \<Rightarrow> duration" where
  "Sub t u =
     (let d = t - u
      in if maxDuration < d then maxDuration else if d < minDuration then minDuration else d)"

text \<open>\<^verbatim>\<open>d.Milliseconds()\<close>: the int64 quotient by \<open>10^6\<close>, truncated towards zero.\<close>

definition Milliseconds :: "duration \<Rightarrow> int" where
  "Milliseconds d = (if d < 0 then - ((- d) div 1000000) else d div 1000000)"

text \<open>
  A \<^verbatim>\<open>float64\<close> with its infinities and NaN; rounding of finite values is not
  represented. \<open>fdiv_int\<close> is \<^verbatim>\<open>float64(a) / float64(b)\<close> for two integers and
  \<open>fsub\<close> is the float subtraction.
\<close>

datatype float64 = Finite real | PosInf | NegInf | NaN

definition fdiv_int :: "int \<Rightarrow> int \<Rightarrow> float64" where
  "fdiv_int a b =
     (if b = 0 then (if a = 0 then NaN else if 0 < a then PosInf else NegInf)
      else Finite (real_of_int a / real_of_int b))"

fun fsub :: "float64 \<Rightarrow> float64 \<Rightarrow> float64" where
  "fsub (Finite a) (Finite b) = Finite (a - b)"
| "fsub NaN _ = NaN"
| "fsub _ NaN = NaN"
| "fsub PosInf PosInf = NaN"
| "fsub NegInf NegInf = NaN"
| "fsub PosInf _ = PosInf"
| "fsub NegInf _ = NegInf"
| "fsub (Finite a) PosInf = NegInf"
| "fsub (Finite a) NegInf = PosInf"

subsection \<open>Output, backend calls, goroutines\<close>

text \<open>
  Each line written to the writer \<^verbatim>\<open>c.w\<close> is kept as the format that produced it
  together with its arguments.
\<close>

datatype log_line =
    ErrOutOfOrderEntry time "time list"
  | ErrEntryNotReceivedWs time duration
  | ErrEntryNotReceived time duration
  | ErrSpotCheckEntryNotReceived time duration
  | ErrDuplicateEntry time
  | ErrUnexpectedEntry time
  | DebugWebsocketMissingEntry time
  | DebugQueryResult time
  | ErrQueryingLoki string
  | ErrMetricQueryTest string
  | ErrInvalidMetricTestRange
  | ErrParseMetricTestRange string

text \<open>
  The reader \<^verbatim>\<open>c.rdr\<close> is the backend. Its answer may change from one call to the
  next, so each method also takes the number of calls made before it. \<^verbatim>\<open>Query\<close> returns
  the timestamps or an error; \<^verbatim>\<open>QueryCountOverTime\<close> returns Go's pair (count, error),
  of which \<^verbatim>\<open>metricTest\<close> reads the count whatever the error is.
\<close>

record reader =
  Query :: "nat \<Rightarrow> time \<Rightarrow> time \<Rightarrow> string + time list"
  QueryCountOverTime :: "nat \<Rightarrow> string \<Rightarrow> float64 \<times> string option"

datatype rdr_call = CallQuery time time | CallQueryCountOverTime string

text \<open>A \<^verbatim>\<open>go f(...)\<close> statement puts a goroutine in the list of those started and not yet run.\<close>

datatype goroutine =
    GoConfirmMissing "time list"
  | GoSpotCheckEntries time
  | GoMetricTest

datatype panic = IndexOutOfRange | NonPositiveInterval

subsection \<open>The state\<close>

text \<open>
  The fields of \<^verbatim>\<open>Comparator\<close> (the slices of pointers hold instants that are never
  written through the pointers, so they are lists of instants), then the package-level
  metrics, then the trace of calls made to the reader, the goroutines started and whether
  \<^verbatim>\<open>run\<close> has returned (the channel \<^verbatim>\<open>done\<close> is closed).
  The latency histogram is kept as its number of observations.
\<close>

record comparator =
  w :: "log_line list"
  entries :: "time list"
  spotCheck :: "time list"
  ackdEntries :: "time list"
  maxWait :: duration
  pruneInterval :: duration
  spotCheckInterval :: duration
  spotCheckMax :: duration
  spotCheckRunning :: bool
  metricTestInterval :: duration
  metricTestRange :: string
  metricTestRagenDur :: duration
  metricTestRunning :: bool
  writeInterval :: duration
  confirmAsync :: bool
  totalEntries :: nat
  outOfOrderEntries :: nat
  wsMissingEntries :: nat
  missingEntries :: nat
  spotCheckMissing :: nat
  unexpectedEntries :: nat
  duplicateEntries :: nat
  metricTestDeviation :: float64
  responseLatency :: nat
  calls :: "rdr_call list"
  goroutines :: "goroutine list"
  loopDone :: bool

subsection \<open>In-place compaction\<close>

text \<open>
  Five loops of the file have the shape
  \<^verbatim>\<open>k := 0; for i, e := range xs { if <dropped> { <effect> } else { if i != k { xs[k] = xs[i] }; k++ } }\<close>
  followed by \<^verbatim>\<open>xs = xs[:k]\<close>. \<open>compact_step\<close> is one iteration at index \<open>i\<close>, on the
  output index, the array as it stands and whatever else the body changes; the test
  reads the index and the element, the effect the index and the array.
\<close>

definition compact_step ::
  "(nat \<Rightarrow> 'a \<Rightarrow> bool) \<Rightarrow> (nat \<Rightarrow> 'a list \<Rightarrow> 'b \<Rightarrow> 'b) \<Rightarrow> nat \<Rightarrow> nat \<times> 'a list \<times> 'b \<Rightarrow> nat \<times> 'a list \<times> 'b"
where
  "compact_step dropped effect i = (\<lambda>(k, xs, b).
     if dropped i (xs ! i) then (k, xs, effect i xs b)
     else (Suc k, (if i \<noteq> k then xs[k := xs ! i] else xs), b))"

definition compact ::
  "(nat \<Rightarrow> 'a \<Rightarrow> bool) \<Rightarrow> (nat \<Rightarrow> 'a list \<Rightarrow> 'b \<Rightarrow> 'b) \<Rightarrow> 'a list \<Rightarrow> 'b \<Rightarrow> nat \<times> 'a list \<times> 'b"
where
  "compact dropped effect xs b = fold (compact_step dropped effect) [0..<length xs] (0, xs, b)"

subsection \<open>entrySent\<close>

definition entrySent :: "comparator \<Rightarrow> time \<Rightarrow> comparator" where
  "entrySent c t =
     (let c1 = c\<lparr>entries := entries c @ [t]\<rparr>;
          c2 = (if length (spotCheck c1) = 0
                   \<or> spotCheckInterval c1 \<le> Sub t (spotCheck c1 ! (length (spotCheck c1) - 1))
                then c1\<lparr>spotCheck := spotCheck c1 @ [t]\<rparr> else c1)
      in c2\<lparr>totalEntries := totalEntries c2 + 1\<rparr>)"

subsection \<open>entryReceived\<close>

text \<open>The scan of the acknowledged entries stops at the first equal one.\<close>

primrec ackd_scan :: "time \<Rightarrow> time list \<Rightarrow> bool" where
  "ackd_scan ts [] = False"
| "ackd_scan ts (e # es) = (if Equal ts e then True else ackd_scan ts es)"

text \<open>The body of the first loop for an entry equal to \<open>ts\<close>, on the flag \<open>matched\<close> and the state.\<close>

definition entryReceived_match :: "nat \<Rightarrow> time list \<Rightarrow> bool \<times> comparator \<Rightarrow> bool \<times> comparator" where
  "entryReceived_match i es = (\<lambda>(matched, c).
     let e = es ! i;
         c1 = (if i \<noteq> 0
               then c\<lparr>outOfOrderEntries := outOfOrderEntries c + 1,
                      w := w c @ [ErrOutOfOrderEntry e (take i es)]\<rparr>
               else c);
         c2 = c1\<lparr>responseLatency := responseLatency c1 + 1\<rparr>
     in (True, c2\<lparr>ackdEntries := ackdEntries c2 @ [es ! i]\<rparr>))"

definition entryReceived :: "comparator \<Rightarrow> time \<Rightarrow> comparator" where
  "entryReceived c ts =
     (case compact (\<lambda>i e. Equal ts e) entryReceived_match (entries c) (False, c) of
        (k, es, matched, c1) \<Rightarrow>
          let c2 = (if \<not> matched then
                      (if ackd_scan ts (ackdEntries c1)
                       then c1\<lparr>duplicateEntries := duplicateEntries c1 + 1,
                               w := w c1 @ [ErrDuplicateEntry ts]\<rparr>
                       else c1\<lparr>w := w c1 @ [ErrUnexpectedEntry ts],
                               unexpectedEntries := unexpectedEntries c1 + 1\<rparr>)
                    else c1)
          in c2\<lparr>entries := take k es\<rparr>)"

definition Size :: "comparator \<Rightarrow> nat" where
  "Size c = length (entries c)"

subsection \<open>confirmMissing\<close>

text \<open>The search of the query result for a missing entry runs to the end of the result.\<close>

definition confirm_found :: "time \<Rightarrow> time list \<Rightarrow> bool" where
  "confirm_found m recvd = fold (\<lambda>r found. if Equal m r then True else found) recvd False"

text \<open>
  \<^verbatim>\<open>missing[0]\<close> and \<^verbatim>\<open>missing[len(missing)-1]\<close> are read with no test of the length:
  on an empty slice the index is out of range and the goroutine panics.
\<close>

definition confirmMissing :: "reader \<Rightarrow> comparator \<Rightarrow> time list \<Rightarrow> panic + comparator" where
  "confirmMissing rdr c missing =
     (if length missing = 0 then Inl IndexOutOfRange
      else
        let start = Add (missing ! 0) (- 10 * Second);
            endt = Add (missing ! (length missing - 1)) (10 * Second);
            c1 = c\<lparr>calls := calls c @ [CallQuery start endt]\<rparr>
        in case Query rdr (length (calls c)) start endt of
             Inl err \<Rightarrow> Inr (c1\<lparr>w := w c1 @ [ErrQueryingLoki err]\<rparr>)
           | Inr recvd \<Rightarrow>
               let c2 = fold (\<lambda>r c. c\<lparr>w := w c @ [DebugWebsocketMissingEntry r]\<rparr>) missing c1;
                   c3 = fold (\<lambda>r c. c\<lparr>w := w c @ [DebugQueryResult r]\<rparr>) recvd c2
               in case compact (\<lambda>i m. confirm_found m recvd) (\<lambda>i ms b. b) missing () of
                    (k, ms, _) \<Rightarrow>
                      Inr (fold (\<lambda>e c. c\<lparr>missingEntries := missingEntries c + 1,
                                          w := w c @ [ErrEntryNotReceived e (maxWait c)]\<rparr>)
                             (take k ms) c3))"

subsection \<open>pruneEntries\<close>

text \<open>
  \<^verbatim>\<open>time.Now()\<close> is read once for every element of both loops; \<open>clock j\<close> is the
  \<open>j\<close>-th reading made by this call.
\<close>

definition pruneEntries_missing ::
  "nat \<Rightarrow> time list \<Rightarrow> time list \<times> comparator \<Rightarrow> time list \<times> comparator"
where
  "pruneEntries_missing i es = (\<lambda>(missing, c).
     (missing @ [es ! i],
      c\<lparr>wsMissingEntries := wsMissingEntries c + 1,
        w := w c @ [ErrEntryNotReceivedWs (es ! i) (maxWait c)]\<rparr>))"

text \<open>The second loop, over the acknowledged entries; \<open>n\<close> readings were made before it.\<close>

definition pruneEntries_ackd :: "(nat \<Rightarrow> time) \<Rightarrow> nat \<Rightarrow> comparator \<Rightarrow> comparator" where
  "pruneEntries_ackd clock n c =
     (case compact (\<lambda>i e. Before e (Add (clock (n + i)) (neg (maxWait c))))
             (\<lambda>i acks b. b) (ackdEntries c) () of
        (k, acks, _) \<Rightarrow> c\<lparr>ackdEntries := take k acks\<rparr>)"

definition pruneEntries :: "reader \<Rightarrow> (nat \<Rightarrow> time) \<Rightarrow> comparator \<Rightarrow> panic + comparator" where
  "pruneEntries rdr clock c =
     (case compact (\<lambda>i e. Before e (Add (clock i) (neg (maxWait c))))
             pruneEntries_missing (entries c) ([], c) of
        (k, es, missing, c1) \<Rightarrow>
          let c2 = c1\<lparr>entries := take k es\<rparr>;
              confirmed =
                (if 0 < length missing then
                   (if confirmAsync c2
                    then Inr (c2\<lparr>goroutines := goroutines c2 @ [GoConfirmMissing missing]\<rparr>)
                    else confirmMissing rdr c2 missing)
                 else Inr c2)
          in (case confirmed of
                Inl p \<Rightarrow> Inl p
              | Inr c3 \<Rightarrow> Inr (pruneEntries_ackd clock (length (entries c)) c3)))"

subsection \<open>spotCheckEntries\<close>

text \<open>The search of the query result for a spot-check entry stops at the first equal one.\<close>

primrec spotCheck_found :: "time \<Rightarrow> time list \<Rightarrow> bool" where
  "spotCheck_found sce [] = False"
| "spotCheck_found sce (r # recvd) = (if Equal sce r then True else spotCheck_found sce recvd)"

text \<open>The loop over the copy; a query error ends the function.\<close>

fun spotCheck_loop :: "reader \<Rightarrow> time \<Rightarrow> time list \<Rightarrow> comparator \<Rightarrow> comparator" where
  "spotCheck_loop rdr currTime [] c = c"
| "spotCheck_loop rdr currTime (sce # cpy) c =
     (let start = Add sce (- 10 * Second);
          endt = Add start (10 * Second);
          c1 = c\<lparr>calls := calls c @ [CallQuery start endt]\<rparr>
      in case Query rdr (length (calls c)) start endt of
           Inl err \<Rightarrow> c1\<lparr>w := w c1 @ [ErrQueryingLoki err]\<rparr>
         | Inr recvd \<Rightarrow>
             spotCheck_loop rdr currTime cpy
               (if \<not> spotCheck_found sce recvd
                then c1\<lparr>w := w c1 @ [ErrSpotCheckEntryNotReceived sce (Sub currTime sce)],
                        spotCheckMissing := spotCheckMissing c1 + 1\<rparr>
                else c1))"

definition spotCheckEntries :: "reader \<Rightarrow> time \<Rightarrow> comparator \<Rightarrow> comparator" where
  "spotCheckEntries rdr currTime c =
     (case compact (\<lambda>i e. Before e (Add currTime (neg (spotCheckMax c))))
             (\<lambda>i xs b. b) (spotCheck c) () of
        (k, xs, _) \<Rightarrow>
          let c1 = c\<lparr>spotCheck := take k xs\<rparr>;
              cpy = spotCheck c1;
              c2 = spotCheck_loop rdr currTime cpy c1
          in c2\<lparr>spotCheckRunning := False\<rparr>)"

subsection \<open>metricTest\<close>

definition metricTest :: "reader \<Rightarrow> comparator \<Rightarrow> comparator" where
  "metricTest rdr c =
     (let c' =
        (if metricTestRagenDur c = 0 then c\<lparr>w := w c @ [ErrInvalidMetricTestRange]\<rparr>
         else
           case QueryCountOverTime rdr (length (calls c)) (metricTestRange c) of
             (actualCount, err) \<Rightarrow>
               let c1 = c\<lparr>calls := calls c @ [CallQueryCountOverTime (metricTestRange c)]\<rparr>;
                   c2 = (case err of
                           Some e \<Rightarrow> c1\<lparr>w := w c1 @ [ErrMetricQueryTest e]\<rparr>
                         | None \<Rightarrow> c1);
                   expectedCount = fdiv_int (Milliseconds (metricTestRagenDur c2))
                                     (Milliseconds (writeInterval c2))
               in c2\<lparr>metricTestDeviation := fsub expectedCount actualCount\<rparr>)
      in c'\<lparr>metricTestRunning := False\<rparr>)"

subsection \<open>NewComparator\<close>

text \<open>
  \<^verbatim>\<open>time.ParseDuration\<close> belongs to the Go standard library and is a parameter here: it
  gives an error or a duration. Every error it returns comes with the zero duration, which
  is the \<open>d\<close> that the constructor stores after the test of \<open>err\<close>. The metrics are those of
  a process that has just started; the channels and the histogram's buckets are not kept.
\<close>

definition NewComparator ::
  "(string \<Rightarrow> string + duration) \<Rightarrow> log_line list \<Rightarrow> duration \<Rightarrow> duration \<Rightarrow> duration \<Rightarrow> duration \<Rightarrow>
   duration \<Rightarrow> string \<Rightarrow> duration \<Rightarrow> bool \<Rightarrow> comparator"
where
  "NewComparator ParseDuration writer maxWait' pruneInterval' spotCheckInterval' spotCheckMax'
       metricTestInterval' metricTestRange' writeInterval' confirmAsync' =
     (let c = \<lparr>w = writer, entries = [], spotCheck = [], ackdEntries = [],
               maxWait = maxWait', pruneInterval = pruneInterval',
               spotCheckInterval = spotCheckInterval', spotCheckMax = spotCheckMax',
               spotCheckRunning = False, metricTestInterval = metricTestInterval',
               metricTestRange = metricTestRange', metricTestRagenDur = 0,
               metricTestRunning = False, writeInterval = writeInterval',
               confirmAsync = confirmAsync',
               totalEntries = 0, outOfOrderEntries = 0, wsMissingEntries = 0,
               missingEntries = 0, spotCheckMissing = 0, unexpectedEntries = 0,
               duplicateEntries = 0, metricTestDeviation = Finite 0, responseLatency = 0,
               calls = [], goroutines = [], loopDone = False\<rparr>;
          (d, err) = (case ParseDuration metricTestRange' of
                        Inl e \<Rightarrow> (0, Some e)
                      | Inr d \<Rightarrow> (d, None));
          c1 = (case err of
                  Some e \<Rightarrow> c\<lparr>w := w c @ [ErrParseMetricTestRange e], metricTestRagenDur := 0\<rparr>
                | None \<Rightarrow> c)
      in c1\<lparr>metricTestRagenDur := d\<rparr>)"

subsection \<open>run\<close>

text \<open>
  One event is one turn of the \<^verbatim>\<open>select\<close> of \<^verbatim>\<open>run\<close>, or the scheduler running one of
  the goroutines started, which is run to its end in that step. A prune tick carries the
  readings of the clock for \<^verbatim>\<open>pruneEntries\<close> and the one handed to
  \<^verbatim>\<open>spotCheckEntries\<close>. After \<^verbatim>\<open>quit\<close> the loop has returned and serves no channel or
  ticker any more; goroutines started before may still run. A panic ends the process.
\<close>

datatype event =
    EvRecv time
  | EvSent time
  | EvPruneTick "nat \<Rightarrow> time" time
  | EvMetricTick
  | EvQuit
  | EvGo nat

definition run_goroutine :: "reader \<Rightarrow> goroutine \<Rightarrow> comparator \<Rightarrow> panic + comparator" where
  "run_goroutine rdr g c =
     (case g of
        GoConfirmMissing missing \<Rightarrow> confirmMissing rdr c missing
      | GoSpotCheckEntries currTime \<Rightarrow> Inr (spotCheckEntries rdr currTime c)
      | GoMetricTest \<Rightarrow> Inr (metricTest rdr c))"

definition step :: "reader \<Rightarrow> event \<Rightarrow> comparator \<Rightarrow> panic + comparator" where
  "step rdr ev c =
     (case ev of
        EvGo n \<Rightarrow>
          (if n < length (goroutines c)
           then run_goroutine rdr (goroutines c ! n)
                  (c\<lparr>goroutines := take n (goroutines c) @ drop (Suc n) (goroutines c)\<rparr>)
           else Inr c)
      | EvRecv e \<Rightarrow> Inr (if loopDone c then c else entryReceived c e)
      | EvSent e \<Rightarrow> Inr (if loopDone c then c else entrySent c e)
      | EvPruneTick clock now \<Rightarrow>
          (if loopDone c then Inr c
           else case pruneEntries rdr clock c of
                  Inl p \<Rightarrow> Inl p
                | Inr c1 \<Rightarrow>
                    Inr (if \<not> spotCheckRunning c1
                         then c1\<lparr>spotCheckRunning := True,
                                 goroutines := goroutines c1 @ [GoSpotCheckEntries now]\<rparr>
                         else c1))
      | EvMetricTick \<Rightarrow>
          Inr (if loopDone c then c
               else if \<not> metricTestRunning c
               then c\<lparr>metricTestRunning := True, goroutines := goroutines c @ [GoMetricTest]\<rparr>
               else c)
      | EvQuit \<Rightarrow> Inr (c\<lparr>loopDone := True\<rparr>))"

fun run_loop :: "reader \<Rightarrow> event list \<Rightarrow> comparator \<Rightarrow> panic + comparator" where
  "run_loop rdr [] c = Inr c"
| "run_loop rdr (ev # evs) c =
     (case step rdr ev c of
        Inl p \<Rightarrow> Inl p
      | Inr c' \<Rightarrow> run_loop rdr evs c')"

text \<open>
  \<^verbatim>\<open>run\<close> first makes the two tickers; \<^verbatim>\<open>time.NewTicker\<close> panics on an interval that
  is not positive.
\<close>

definition run :: "reader \<Rightarrow> event list \<Rightarrow> comparator \<Rightarrow> panic + comparator" where
  "run rdr evs c =
     (if pruneInterval c \<le> 0 then Inl NonPositiveInterval
      else if metricTestInterval c \<le> 0 then Inl NonPositiveInterval
      else run_loop rdr evs c)"

subsection \<open>What a compaction loop computes\<close>

text \<open>
  After \<open>n\<close> iterations over \<open>xs\<close>: the indices kept so far, the array as it stands
  (the kept elements, then the old elements from the output index on), and the effects
  of the dropped indices, each applied to the array of its iteration.
\<close>

definition kept_idx :: "(nat \<Rightarrow> 'a \<Rightarrow> bool) \<Rightarrow> 'a list \<Rightarrow> nat \<Rightarrow> nat list" where
  "kept_idx dropped xs n = filter (\<lambda>i. \<not> dropped i (xs ! i)) [0..<n]"

definition arr_at :: "(nat \<Rightarrow> 'a \<Rightarrow> bool) \<Rightarrow> 'a list \<Rightarrow> nat \<Rightarrow> 'a list" where
  "arr_at dropped xs n =
     map ((!) xs) (kept_idx dropped xs n) @ drop (length (kept_idx dropped xs n)) xs"

definition effects ::
  "(nat \<Rightarrow> 'a \<Rightarrow> bool) \<Rightarrow> (nat \<Rightarrow> 'a list \<Rightarrow> 'b \<Rightarrow> 'b) \<Rightarrow> 'a list \<Rightarrow> nat \<Rightarrow> 'b \<Rightarrow> 'b"
where
  "effects dropped effect xs n b =
     fold (\<lambda>i b. if dropped i (xs ! i) then effect i (arr_at dropped xs i) b else b) [0..<n] b"

subsection \<open>Predicates of the properties\<close>

text \<open>
  Consecutive entries of the spot-check buffer are at least \<open>d\<close> apart, the distance
  being measured as \<^verbatim>\<open>entrySent\<close> measures it, by \<^verbatim>\<open>Sub\<close>.
\<close>

fun spaced :: "duration \<Rightarrow> time list \<Rightarrow> bool" where
  "spaced d [] = True"
| "spaced d [x] = True"
| "spaced d (x # y # zs) = (d \<le> Sub y x \<and> spaced d (y # zs))"

text \<open>
  The pending entry at index \<open>i\<close> is older than \<^verbatim>\<open>maxWait\<close> at the reading of the clock
  that \<^verbatim>\<open>pruneEntries\<close> makes for it.
\<close>

definition prune_stale :: "(nat \<Rightarrow> time) \<Rightarrow> comparator \<Rightarrow> nat \<Rightarrow> bool" where
  "prune_stale clock c i = Before (entries c ! i) (Add (clock i) (neg (maxWait c)))"

text \<open>The pending entries that a call of \<^verbatim>\<open>pruneEntries\<close> finds stale, and the others, in order.\<close>

definition prune_evicted :: "(nat \<Rightarrow> time) \<Rightarrow> comparator \<Rightarrow> time list" where
  "prune_evicted clock c =
     map ((!) (entries c)) (filter (prune_stale clock c) [0..<length (entries c)])"

definition prune_kept :: "(nat \<Rightarrow> time) \<Rightarrow> comparator \<Rightarrow> time list" where
  "prune_kept clock c =
     map ((!) (entries c)) (filter (\<lambda>i. \<not> prune_stale clock c i) [0..<length (entries c)])"

text \<open>The goroutines started hold no \<^verbatim>\<open>confirmMissing\<close> on an empty slice.\<close>

definition confirms_nonempty :: "comparator \<Rightarrow> bool" where
  "confirms_nonempty c = (GoConfirmMissing [] \<notin> set (goroutines c))"

subsection \<open>A concrete comparator\<close>

text \<open>
  A comparator with \<^verbatim>\<open>maxWait\<close> 5s, a prune interval of 1s, a spot-check interval of 15m
  and a spot-check age of 4h, a metric test every hour over the range \<^verbatim>\<open>24h\<close>, one
  write per second and synchronous confirmation; a parser that knows \<^verbatim>\<open>24h\<close> only; a
  backend that stores nothing, and one whose count query fails.
\<close>

definition sampleParse :: "string \<Rightarrow> string + duration" where
  "sampleParse s = (if s = ''24h'' then Inr (86400 * Second) else Inl ''time: invalid duration'')"

definition sample :: comparator where
  "sample = NewComparator sampleParse [] (5 * Second) Second (900 * Second) (14400 * Second)
              (3600 * Second) ''24h'' Second False"

text \<open>The same comparator with the range \<^verbatim>\<open>1d\<close>, which has no unit that Go knows.\<close>

definition unparsed :: comparator where
  "unparsed = NewComparator sampleParse [] (5 * Second) Second (900 * Second) (14400 * Second)
                (3600 * Second) ''1d'' Second False"

definition emptyReader :: reader where
  "emptyReader = \<lparr>Query = (\<lambda>n start endt. Inr []),
                   QueryCountOverTime = (\<lambda>n r. (Finite 0, None))\<rparr>"

definition failingReader :: reader where
  "failingReader = \<lparr>Query = (\<lambda>n start endt. Inl ''connection refused''),
                     QueryCountOverTime = (\<lambda>n r. (Finite 0, Some ''connection refused''))\<rparr>"

section \<open>Lemmas\<close>

lemma kept_idx_Suc:
  "kept_idx dropped xs (Suc n) =
     (if dropped n (xs ! n) then kept_idx dropped xs n else kept_idx dropped xs n @ [n])"
  by (simp add: kept_idx_def)

lemma length_kept_idx: "length (kept_idx dropped xs n) \<le> n"
  unfolding kept_idx_def using length_filter_le [of _ "[0..<n]"] by simp

lemma arr_at_nth:
  assumes "n < length xs"
  shows "arr_at dropped xs n ! n = xs ! n"
  using assms length_kept_idx [of dropped xs n]
  by (simp add: arr_at_def nth_append)

lemma arr_at_Suc_kept:
  assumes "n < length xs" "\<not> dropped n (xs ! n)"
  shows "arr_at dropped xs (Suc n) =
           (if n \<noteq> length (kept_idx dropped xs n)
            then (arr_at dropped xs n)[length (kept_idx dropped xs n) := xs ! n]
            else arr_at dropped xs n)"
proof -
  let ?K = "kept_idx dropped xs n"
  have le: "length ?K \<le> n" by (rule length_kept_idx)
  have lt: "length ?K < length xs" using le assms(1) by simp
  have upd: "(map ((!) xs) ?K @ drop (length ?K) xs)[length ?K := xs ! n]
               = map ((!) xs) ?K @ [xs ! n] @ drop (Suc (length ?K)) xs"
  proof -
    have "drop (length ?K) xs = xs ! length ?K # drop (Suc (length ?K)) xs"
      using lt by (simp add: Cons_nth_drop_Suc)
    then show ?thesis by (simp add: list_update_append)
  qed
  show ?thesis
  proof (cases "n = length ?K")
    case True
    then show ?thesis using assms lt
      by (simp add: arr_at_def kept_idx_Suc Cons_nth_drop_Suc)
  next
    case False
    then show ?thesis using assms upd
      by (simp add: arr_at_def kept_idx_Suc)
  qed
qed

lemma arr_at_Suc_dropped:
  "dropped n (xs ! n) \<Longrightarrow> arr_at dropped xs (Suc n) = arr_at dropped xs n"
  by (simp add: arr_at_def kept_idx_Suc)

lemma compact_fold:
  "n \<le> length xs \<Longrightarrow>
   fold (compact_step dropped effect) [0..<n] (0, xs, b) =
     (length (kept_idx dropped xs n), arr_at dropped xs n, effects dropped effect xs n b)"
proof (induction n)
  case 0
  then show ?case by (simp add: kept_idx_def arr_at_def effects_def)
next
  case (Suc n)
  then have n: "n < length xs" by simp
  show ?case
  proof (cases "dropped n (xs ! n)")
    case True
    then show ?thesis using Suc n
      by (simp add: compact_step_def arr_at_nth arr_at_Suc_dropped kept_idx_Suc effects_def)
  next
    case False
    then show ?thesis using Suc n arr_at_Suc_kept [of n xs dropped]
      by (simp add: compact_step_def arr_at_nth kept_idx_Suc effects_def)
  qed
qed

lemma take_arr_at:
  "take (length (kept_idx dropped xs n)) (arr_at dropped xs n) = map ((!) xs) (kept_idx dropped xs n)"
  by (simp add: arr_at_def)

lemma compact_eq:
  "compact dropped effect xs b =
     (length (kept_idx dropped xs (length xs)), arr_at dropped xs (length xs),
      effects dropped effect xs (length xs) b)"
  by (simp add: compact_def compact_fold)

lemma compact_Nil: "compact dropped effect [] b = (0, [], b)"
  by (simp add: compact_def)

lemma effects_Suc:
  "effects dropped effect xs (Suc n) b =
     (if dropped n (xs ! n) then effect n (arr_at dropped xs n) (effects dropped effect xs n b)
      else effects dropped effect xs n b)"
  by (simp add: effects_def)

lemma effects_0: "effects dropped effect xs 0 b = b"
  by (simp add: effects_def)

lemma kept_idx_none:
  "(\<And>i. i < n \<Longrightarrow> \<not> dropped i (xs ! i)) \<Longrightarrow> kept_idx dropped xs n = [0..<n]"
  by (simp add: kept_idx_def)

lemma arr_at_none:
  assumes "\<And>i. i < n \<Longrightarrow> \<not> dropped i (xs ! i)" "n \<le> length xs"
  shows "arr_at dropped xs n = xs"
proof -
  have "map ((!) xs) [0..<n] = take n xs"
    using assms(2) by (intro nth_equalityI) auto
  then show ?thesis using assms(1) by (simp add: arr_at_def kept_idx_none)
qed

lemma effects_none:
  "(\<And>i. i < n \<Longrightarrow> \<not> dropped i (xs ! i)) \<Longrightarrow> effects dropped effect xs n b = b"
  by (induction n) (simp_all add: effects_0 effects_Suc)

lemma effects_one:
  assumes "j < n" "dropped j (xs ! j)" "\<And>i. i < n \<Longrightarrow> i \<noteq> j \<Longrightarrow> \<not> dropped i (xs ! i)"
  shows "effects dropped effect xs n b = effect j (arr_at dropped xs j) b"
  using assms
proof (induction n)
  case 0
  then show ?case by simp
next
  case (Suc n)
  show ?case
  proof (cases "j = n")
    case True
    have "effects dropped effect xs n b = b"
      using Suc.prems(3) True by (intro effects_none) simp
    then show ?thesis using True Suc.prems(2) by (simp add: effects_Suc)
  next
    case False
    then have "j < n" using Suc.prems(1) by simp
    moreover have "\<not> dropped n (xs ! n)" using Suc.prems(3) [of n] False by simp
    ultimately show ?thesis using Suc by (simp add: effects_Suc)
  qed
qed

lemma map_nth_kept_idx:
  "map ((!) xs) (kept_idx (\<lambda>i. dropped) xs (length xs)) = filter (\<lambda>e. \<not> dropped e) xs"
proof -
  have "filter (\<lambda>e. \<not> dropped e) (map ((!) xs) [0..<length xs])
          = map ((!) xs) (filter ((\<lambda>e. \<not> dropped e) \<circ> (!) xs) [0..<length xs])"
    by (rule filter_map)
  then show ?thesis by (simp add: kept_idx_def map_nth comp_def)
qed

lemma compact_take:
  "compact (\<lambda>i. dropped) effect xs b = (k, ys, b') \<Longrightarrow> take k ys = filter (\<lambda>e. \<not> dropped e) xs"
  using take_arr_at [of "\<lambda>i. dropped" xs "length xs"]
  by (auto simp: compact_eq map_nth_kept_idx)

lemma ackd_scan_set: "ackd_scan ts es = (ts \<in> set es)"
  by (induction es) (auto simp: Equal_def)

lemma entryReceived_unmatched:
  assumes "ts \<notin> set (entries c)"
  shows "entryReceived c ts =
           (if ts \<in> set (ackdEntries c)
            then c\<lparr>duplicateEntries := duplicateEntries c + 1, w := w c @ [ErrDuplicateEntry ts]\<rparr>
            else c\<lparr>w := w c @ [ErrUnexpectedEntry ts], unexpectedEntries := unexpectedEntries c + 1\<rparr>)"
proof -
  have none: "\<And>i. i < length (entries c) \<Longrightarrow> \<not> Equal ts (entries c ! i)"
    using assms by (auto simp: Equal_def)
  have "compact (\<lambda>i e. Equal ts e) entryReceived_match (entries c) (False, c)
          = (length (entries c), entries c, False, c)"
    using none by (simp add: compact_eq kept_idx_none arr_at_none effects_none)
  then show ?thesis
    by (simp add: entryReceived_def ackd_scan_set)
qed

lemma entryReceived_matched_once:
  assumes "entries c = ys @ ts # zs" "ts \<notin> set ys" "ts \<notin> set zs"
  shows "entryReceived c ts =
           (let c1 = (if ys \<noteq> [] then c\<lparr>outOfOrderEntries := outOfOrderEntries c + 1,
                                        w := w c @ [ErrOutOfOrderEntry ts ys]\<rparr> else c)
            in c1\<lparr>responseLatency := responseLatency c + 1,
                  ackdEntries := ackdEntries c @ [ts], entries := ys @ zs\<rparr>)"
proof -
  let ?D = "\<lambda>(i::nat) e. Equal ts e"
  let ?j = "length ys"
  have j: "?j < length (entries c)" using assms(1) by simp
  have atj: "entries c ! ?j = ts" using assms(1) by simp
  have other: "\<And>i. i < length (entries c) \<Longrightarrow> i \<noteq> ?j \<Longrightarrow> \<not> Equal ts (entries c ! i)"
  proof -
    fix i assume i: "i < length (entries c)" "i \<noteq> ?j"
    show "\<not> Equal ts (entries c ! i)"
    proof (cases "i < ?j")
      case True
      then have "entries c ! i \<in> set ys" using assms(1) by (simp add: nth_append)
      then show ?thesis using assms(2) by (auto simp: Equal_def)
    next
      case False
      then have "?j < i" using i by simp
      then have "entries c ! i = zs ! (i - Suc ?j)" using assms(1)
        by (simp add: nth_append nth_Cons')
      moreover have "i - Suc ?j < length zs" using i \<open>?j < i\<close> assms(1) by simp
      ultimately have "entries c ! i \<in> set zs" by simp
      then show ?thesis using assms(3) by (auto simp: Equal_def)
    qed
  qed
  have eff: "effects ?D entryReceived_match (entries c) (length (entries c)) (False, c)
               = entryReceived_match ?j (arr_at ?D (entries c) ?j) (False, c)"
    using j atj other by (intro effects_one) (simp_all add: Equal_def)
  have arr: "arr_at ?D (entries c) ?j = entries c"
    using j other by (intro arr_at_none) simp_all
  have flt: "filter (\<lambda>e. \<not> Equal ts e) (entries c) = ys @ zs"
    using assms by (simp add: Equal_def) (metis (mono_tags, lifting) filter_True)
  obtain k es b where cmp: "compact ?D entryReceived_match (entries c) (False, c) = (k, es, b)"
    by (cases "compact ?D entryReceived_match (entries c) (False, c)") 
  have tk: "take k es = ys @ zs" using compact_take [OF cmp] flt by simp
  have b: "b = entryReceived_match ?j (entries c) (False, c)"
    using cmp eff arr by (simp add: compact_eq)
  show ?thesis
    using cmp tk b assms(1) by (simp add: entryReceived_def entryReceived_match_def Let_def)
qed

lemma entries_entrySent: "entries (entrySent c t) = entries c @ [t]"
  by (simp add: entrySent_def Let_def)

lemma ackdEntries_entrySent: "ackdEntries (entrySent c t) = ackdEntries c"
  by (simp add: entrySent_def Let_def)

lemma counters_entrySent:
  "outOfOrderEntries (entrySent c t) = outOfOrderEntries c"
  "duplicateEntries (entrySent c t) = duplicateEntries c"
  "unexpectedEntries (entrySent c t) = unexpectedEntries c"
  by (simp_all add: entrySent_def Let_def)

lemma effects_frame:
  assumes "\<And>i ys b. f (effect i ys b) = f b"
  shows "f (effects dropped effect xs n b) = f b"
  by (induction n) (simp_all add: effects_0 effects_Suc assms)

lemma confirm_found_fold:
  "fold (\<lambda>r found. if Equal m r then True else found) recvd b = (b \<or> m \<in> set recvd)"
  by (induction recvd arbitrary: b) (auto simp: Equal_def)

lemma confirm_found_set: "confirm_found m recvd = (m \<in> set recvd)"
  by (simp add: confirm_found_def confirm_found_fold)

lemma fold_log:
  "fold (\<lambda>r c. c\<lparr>w := w c @ [line r]\<rparr>) xs c = c\<lparr>w := w c @ map line xs\<rparr>"
  by (induction xs arbitrary: c) simp_all

lemma fold_missingEntries:
  "fold (\<lambda>e c. c\<lparr>missingEntries := Suc (missingEntries c),
                 w := w c @ [ErrEntryNotReceived e (maxWait c)]\<rparr>) xs c
     = c\<lparr>missingEntries := missingEntries c + length xs,
         w := w c @ map (\<lambda>e. ErrEntryNotReceived e (maxWait c)) xs\<rparr>"
  by (induction xs arbitrary: c) simp_all

lemma confirmMissing_empty: "confirmMissing rdr c [] = Inl IndexOutOfRange"
  by (simp add: confirmMissing_def)

lemma confirmMissing_error:
  assumes "ms \<noteq> []"
    and "Query rdr (length (calls c)) (Add (hd ms) (- 10 * Second)) (Add (last ms) (10 * Second)) = Inl err"
  shows "confirmMissing rdr c ms =
           Inr (c\<lparr>calls := calls c @ [CallQuery (Add (hd ms) (- 10 * Second)) (Add (last ms) (10 * Second))],
                  w := w c @ [ErrQueryingLoki err]\<rparr>)"
  using assms by (simp add: confirmMissing_def Let_def hd_conv_nth last_conv_nth)

lemma confirmMissing_success:
  assumes "ms \<noteq> []"
    and "Query rdr (length (calls c)) (Add (hd ms) (- 10 * Second)) (Add (last ms) (10 * Second)) = Inr recvd"
  shows "confirmMissing rdr c ms =
           Inr (c\<lparr>calls := calls c @ [CallQuery (Add (hd ms) (- 10 * Second)) (Add (last ms) (10 * Second))],
                  w := w c @ map DebugWebsocketMissingEntry ms @ map DebugQueryResult recvd
                         @ map (\<lambda>e. ErrEntryNotReceived e (maxWait c)) (filter (\<lambda>m. m \<notin> set recvd) ms),
                  missingEntries := missingEntries c + length (filter (\<lambda>m. m \<notin> set recvd) ms)\<rparr>)"
proof -
  obtain k ys u where cmp: "compact (\<lambda>i m. confirm_found m recvd) (\<lambda>i ms b. b) ms () = (k, ys, u)"
    by (cases "compact (\<lambda>i m. confirm_found m recvd) (\<lambda>i ms b. b) ms ()") 
  have tk: "take k ys = filter (\<lambda>m. m \<notin> set recvd) ms"
    using compact_take [OF cmp] by (simp add: confirm_found_set)
  have ln: "min (length ys) k = length (filter (\<lambda>m. m \<notin> set recvd) ms)"
    using arg_cong [OF tk, of length] by simp
  show ?thesis
    using assms cmp tk ln
    by (simp add: confirmMissing_def Let_def hd_conv_nth last_conv_nth fold_log fold_missingEntries)
qed

lemma confirmMissing_frame:
  assumes "confirmMissing rdr c ms = Inr c'"
  shows "metricTestRagenDur c' = metricTestRagenDur c \<and> goroutines c' = goroutines c
         \<and> entries c' = entries c \<and> loopDone c' = loopDone c"
proof (cases "ms = []")
  case True
  then show ?thesis using assms by (simp add: confirmMissing_empty)
next
  case False
  show ?thesis
  proof (cases "Query rdr (length (calls c)) (Add (hd ms) (- 10 * Second)) (Add (last ms) (10 * Second))")
    case (Inl err)
    then show ?thesis using assms confirmMissing_error [OF False Inl] by auto
  next
    case (Inr recvd)
    then show ?thesis using assms confirmMissing_success [OF False Inr] by auto
  qed
qed

lemma confirmMissing_nonempty:
  "ms \<noteq> [] \<Longrightarrow> \<exists>c'. confirmMissing rdr c ms = Inr c'"
  by (cases "Query rdr (length (calls c)) (Add (hd ms) (- 10 * Second)) (Add (last ms) (10 * Second))")
     (simp_all add: confirmMissing_error confirmMissing_success)

lemma effects_pruneEntries_missing:
  "n \<le> length xs \<Longrightarrow>
   effects dropped pruneEntries_missing xs n (ms, c) =
     (ms @ map ((!) xs) (filter (\<lambda>i. dropped i (xs ! i)) [0..<n]),
      c\<lparr>wsMissingEntries := wsMissingEntries c + length (filter (\<lambda>i. dropped i (xs ! i)) [0..<n]),
        w := w c @ map (\<lambda>e. ErrEntryNotReceivedWs e (maxWait c))
                     (map ((!) xs) (filter (\<lambda>i. dropped i (xs ! i)) [0..<n]))\<rparr>)"
proof (induction n)
  case 0
  then show ?case by (simp add: effects_0)
next
  case (Suc n)
  then show ?case
    by (simp add: effects_Suc pruneEntries_missing_def arr_at_nth)
qed

lemma pruneEntries_ackd_frame:
  "\<exists>acks. pruneEntries_ackd clock n c = c\<lparr>ackdEntries := acks\<rparr>"
  by (auto simp: pruneEntries_ackd_def split: prod.split)

lemma pruneEntries_closed:
  "pruneEntries rdr clock c =
     (let c2 = c\<lparr>wsMissingEntries := wsMissingEntries c + length (prune_evicted clock c),
                 w := w c @ map (\<lambda>e. ErrEntryNotReceivedWs e (maxWait c)) (prune_evicted clock c),
                 entries := prune_kept clock c\<rparr>
      in if prune_evicted clock c = [] then Inr (pruneEntries_ackd clock (length (entries c)) c2)
         else if confirmAsync c
         then Inr (pruneEntries_ackd clock (length (entries c))
                     (c2\<lparr>goroutines := goroutines c @ [GoConfirmMissing (prune_evicted clock c)]\<rparr>))
         else (case confirmMissing rdr c2 (prune_evicted clock c) of
                 Inl p \<Rightarrow> Inl p
               | Inr c3 \<Rightarrow> Inr (pruneEntries_ackd clock (length (entries c)) c3)))"
proof -
  let ?D = "\<lambda>i e. Before e (Add (clock i) (neg (maxWait c)))"
  let ?n = "length (entries c)"
  let ?ev = "prune_evicted clock c"
  let ?kept = "prune_kept clock c"
  let ?c1 = "c\<lparr>wsMissingEntries := wsMissingEntries c + length ?ev,
               w := w c @ map (\<lambda>e. ErrEntryNotReceivedWs e (maxWait c)) ?ev\<rparr>"
  have st: "(\<lambda>i. ?D i (entries c ! i)) = prune_stale clock c"
    by (auto simp: prune_stale_def)
  have kp: "map ((!) (entries c)) (kept_idx ?D (entries c) ?n) = ?kept"
    by (simp add: kept_idx_def prune_stale_def prune_kept_def)
  have eff: "effects ?D pruneEntries_missing (entries c) ?n ([], c) = (?ev, ?c1)"
    using effects_pruneEntries_missing [of ?n "entries c" ?D "[]" c]
    by (simp add: st prune_evicted_def)
  have cmp: "compact ?D pruneEntries_missing (entries c) ([], c)
               = (length (kept_idx ?D (entries c) ?n), arr_at ?D (entries c) ?n, ?ev, ?c1)"
    by (simp only: compact_eq eff)
  have tk: "take (length (kept_idx ?D (entries c) ?n)) (arr_at ?D (entries c) ?n) = ?kept"
    using take_arr_at [of ?D "entries c" ?n] by (simp only: kp)
  have unf: "pruneEntries rdr clock c =
      (let c2 = ?c1\<lparr>entries := ?kept\<rparr>;
           confirmed = (if 0 < length ?ev then
                   (if confirmAsync c2
                    then Inr (c2\<lparr>goroutines := goroutines c2 @ [GoConfirmMissing ?ev]\<rparr>)
                    else confirmMissing rdr c2 ?ev)
                 else Inr c2)
       in (case confirmed of Inl p \<Rightarrow> Inl p
           | Inr c3 \<Rightarrow> Inr (pruneEntries_ackd clock ?n c3)))"
    unfolding pruneEntries_def cmp prod.case tk ..
  show ?thesis
  proof (cases "?ev = []")
    case True
    then show ?thesis unfolding unf by (simp add: Let_def)
  next
    case False
    then show ?thesis unfolding unf by (simp add: Let_def)
  qed
qed

lemma entries_pruneEntries_ackd: "entries (pruneEntries_ackd clock n c) = entries c"
proof -
  obtain acks where "pruneEntries_ackd clock n c = c\<lparr>ackdEntries := acks\<rparr>"
    using pruneEntries_ackd_frame by blast
  then show ?thesis by simp
qed

lemma entries_pruneEntries:
  assumes "pruneEntries rdr clock c = Inr c'"
  shows "entries c' = prune_kept clock c"
proof -
  let ?c2 = "c\<lparr>wsMissingEntries := wsMissingEntries c + length (prune_evicted clock c),
                 w := w c @ map (\<lambda>e. ErrEntryNotReceivedWs e (maxWait c)) (prune_evicted clock c),
                 entries := prune_kept clock c\<rparr>"
  note cl = pruneEntries_closed [of rdr clock c, unfolded Let_def]
  show ?thesis
  proof (cases "prune_evicted clock c = []")
    case True
    then have "c' = pruneEntries_ackd clock (length (entries c)) ?c2"
      using assms cl by simp
    then show ?thesis by (simp add: entries_pruneEntries_ackd)
  next
    case False
    show ?thesis
    proof (cases "confirmAsync c")
      case True
      then have "c' = pruneEntries_ackd clock (length (entries c))
                        (?c2\<lparr>goroutines := goroutines c @ [GoConfirmMissing (prune_evicted clock c)]\<rparr>)"
        using assms cl False by simp
      then show ?thesis by (simp add: entries_pruneEntries_ackd)
    next
      case async: False
      obtain c3 where c3: "confirmMissing rdr ?c2 (prune_evicted clock c) = Inr c3"
        using confirmMissing_nonempty [OF False] by blast
      then have "c' = pruneEntries_ackd clock (length (entries c)) c3"
        using assms cl False async by simp
      moreover have "entries c3 = entries ?c2" using confirmMissing_frame [OF c3] by simp
      ultimately show ?thesis by (simp add: entries_pruneEntries_ackd)
    qed
  qed
qed

lemma prune_kept_const:
  "prune_kept (\<lambda>j. now) c = filter (\<lambda>e. \<not> Before e (Add now (neg (maxWait c)))) (entries c)"
  using map_nth_kept_idx [of "entries c" "\<lambda>e. Before e (Add now (neg (maxWait c)))"]
  by (simp add: kept_idx_def prune_stale_def prune_kept_def)

lemma prune_evicted_const:
  "prune_evicted (\<lambda>j. now) c = filter (\<lambda>e. Before e (Add now (neg (maxWait c)))) (entries c)"
  using map_nth_kept_idx [of "entries c" "\<lambda>e. \<not> Before e (Add now (neg (maxWait c)))"]
  by (simp add: kept_idx_def prune_evicted_def prune_stale_def [abs_def])

lemma sample_fields:
  "entries sample = []" "ackdEntries sample = []" "spotCheck sample = []"
  "outOfOrderEntries sample = 0" "duplicateEntries sample = 0" "unexpectedEntries sample = 0"
  "missingEntries sample = 0" "spotCheckMissing sample = 0" "wsMissingEntries sample = 0"
  "calls sample = []" "goroutines sample = []" "w sample = []"
  "maxWait sample = 5 * Second" "confirmAsync sample = False"
  "metricTestDeviation sample = Finite 0" "metricTestRagenDur sample = 86400 * Second"
  "writeInterval sample = Second" "metricTestRange sample = ''24h''"
  "spotCheckInterval sample = 900 * Second" "spotCheckMax sample = 14400 * Second"
  by (simp_all add: sample_def NewComparator_def sampleParse_def)

lemma Sub_mono: "a \<le> b \<Longrightarrow> Sub a x \<le> Sub b x"
  by (simp add: Sub_def Let_def maxDuration_def minDuration_def)

lemma spaced_tail: "spaced d (x # xs) \<Longrightarrow> spaced d xs"
  by (cases xs) simp_all

lemma spaced_Cons:
  "spaced d (x # xs) = ((xs = [] \<or> d \<le> Sub (hd xs) x) \<and> spaced d xs)"
  by (cases xs) simp_all

lemma hd_filter_after:
  assumes "d \<le> Sub r x" "filter (\<lambda>e. \<not> Before e cutoff) (r # rest) \<noteq> []"
  shows "d \<le> Sub (hd (filter (\<lambda>e. \<not> Before e cutoff) (r # rest))) x"
proof (cases "Before r cutoff")
  case False
  then show ?thesis using assms(1) by simp
next
  case True
  let ?ys = "filter (\<lambda>e. \<not> Before e cutoff) rest"
  have ne: "?ys \<noteq> []" using assms(2) True by simp
  then have "hd ?ys \<in> set ?ys" by (rule hd_in_set)
  then have "\<not> Before (hd ?ys) cutoff" by simp
  then have "r \<le> hd ?ys" using True by (simp add: Before_def)
  then have "Sub r x \<le> Sub (hd ?ys) x" by (rule Sub_mono)
  then show ?thesis using assms(1) True by simp
qed

lemma spaced_filter:
  "spaced d xs \<Longrightarrow> spaced d (filter (\<lambda>e. \<not> Before e cutoff) xs)"
proof (induction xs)
  case Nil
  then show ?case by simp
next
  case (Cons x xs)
  have tl: "spaced d (filter (\<lambda>e. \<not> Before e cutoff) xs)"
    using Cons.IH spaced_tail [OF Cons.prems] by simp
  show ?case
  proof (cases "Before x cutoff")
    case True
    then show ?thesis using tl by simp
  next
    case False
    show ?thesis
    proof (cases "filter (\<lambda>e. \<not> Before e cutoff) xs = []")
      case True
      then show ?thesis using False by simp
    next
      case ne: False
      then obtain r rest where xs: "xs = r # rest" by (cases xs) auto
      have "d \<le> Sub r x" using Cons.prems xs by simp
      then have "d \<le> Sub (hd (filter (\<lambda>e. \<not> Before e cutoff) xs)) x"
        using hd_filter_after ne xs by blast
      then show ?thesis using False tl ne by (simp add: spaced_Cons)
    qed
  qed
qed

lemma spaced_snoc:
  "spaced d xs \<Longrightarrow> xs = [] \<or> d \<le> Sub t (last xs) \<Longrightarrow> spaced d (xs @ [t])"
proof (induction d xs rule: spaced.induct)
  case (1 d)
  then show ?case by simp
next
  case (2 d x)
  then show ?case by simp
next
  case (3 d x y zs)
  then show ?case by simp
qed

lemma spotCheck_loop_frame:
  "spotCheck (spotCheck_loop rdr currTime cpy c) = spotCheck c
   \<and> spotCheckInterval (spotCheck_loop rdr currTime cpy c) = spotCheckInterval c
   \<and> metricTestRagenDur (spotCheck_loop rdr currTime cpy c) = metricTestRagenDur c
   \<and> goroutines (spotCheck_loop rdr currTime cpy c) = goroutines c
   \<and> loopDone (spotCheck_loop rdr currTime cpy c) = loopDone c"
proof (induction cpy arbitrary: c)
  case Nil
  then show ?case by simp
next
  case (Cons sce cpy)
  show ?case
  proof (cases "Query rdr (length (calls c)) (Add sce (- 10 * Second)) (Add (Add sce (- 10 * Second)) (10 * Second))")
    case (Inl err)
    then show ?thesis by (simp add: Let_def)
  next
    case (Inr recvd)
    then show ?thesis by (simp add: Let_def Cons.IH)
  qed
qed

lemma spotCheck_spotCheckEntries:
  "spotCheck (spotCheckEntries rdr now c)
     = filter (\<lambda>e. \<not> Before e (Add now (neg (spotCheckMax c)))) (spotCheck c)"
proof -
  obtain k xs u where cmp:
    "compact (\<lambda>i e. Before e (Add now (neg (spotCheckMax c)))) (\<lambda>i xs b. b) (spotCheck c) () = (k, xs, u)"
    by (cases "compact (\<lambda>i e. Before e (Add now (neg (spotCheckMax c)))) (\<lambda>i xs b. b) (spotCheck c) ()")
  show ?thesis
    using cmp compact_take [OF cmp]
    by (simp add: spotCheckEntries_def Let_def spotCheck_loop_frame)
qed

lemma spotCheckEntries_frame:
  "spotCheckInterval (spotCheckEntries rdr now c) = spotCheckInterval c
   \<and> metricTestRagenDur (spotCheckEntries rdr now c) = metricTestRagenDur c
   \<and> goroutines (spotCheckEntries rdr now c) = goroutines c
   \<and> loopDone (spotCheckEntries rdr now c) = loopDone c"
  by (simp add: spotCheckEntries_def Let_def spotCheck_loop_frame split: prod.split)

lemma spotCheck_found_set: "spotCheck_found sce recvd = (sce \<in> set recvd)"
  by (induction recvd) (auto simp: Equal_def)

lemma entryReceived_frame:
  "metricTestRagenDur (entryReceived c ts) = metricTestRagenDur c
   \<and> goroutines (entryReceived c ts) = goroutines c
   \<and> loopDone (entryReceived c ts) = loopDone c"
proof -
  let ?D = "\<lambda>(i::nat) e. Equal ts e"
  let ?b = "effects ?D entryReceived_match (entries c) (length (entries c)) (False, c)"
  have m: "\<And>i ys b. metricTestRagenDur (snd (entryReceived_match i ys b)) = metricTestRagenDur (snd b)"
    by (simp add: entryReceived_match_def split_def Let_def)
  have g: "\<And>i ys b. goroutines (snd (entryReceived_match i ys b)) = goroutines (snd b)"
    by (simp add: entryReceived_match_def split_def Let_def)
  have l: "\<And>i ys b. loopDone (snd (entryReceived_match i ys b)) = loopDone (snd b)"
    by (simp add: entryReceived_match_def split_def Let_def)
  have "metricTestRagenDur (snd ?b) = metricTestRagenDur c"
    using effects_frame [of "\<lambda>b. metricTestRagenDur (snd b)" entryReceived_match, OF m] by simp
  moreover have "goroutines (snd ?b) = goroutines c"
    using effects_frame [of "\<lambda>b. goroutines (snd b)" entryReceived_match, OF g] by simp
  moreover have "loopDone (snd ?b) = loopDone c"
    using effects_frame [of "\<lambda>b. loopDone (snd b)" entryReceived_match, OF l] by simp
  ultimately show ?thesis
    by (simp add: entryReceived_def compact_eq split_def Let_def)
qed

lemma entrySent_frame:
  "metricTestRagenDur (entrySent c t) = metricTestRagenDur c
   \<and> goroutines (entrySent c t) = goroutines c
   \<and> loopDone (entrySent c t) = loopDone c"
  by (simp add: entrySent_def Let_def)

lemma metricTest_frame:
  "metricTestRagenDur (metricTest rdr c) = metricTestRagenDur c
   \<and> goroutines (metricTest rdr c) = goroutines c
   \<and> loopDone (metricTest rdr c) = loopDone c"
  by (simp add: metricTest_def Let_def split: prod.split option.split)

lemma pruneEntries_ackd_fields:
  "metricTestRagenDur (pruneEntries_ackd clock n c) = metricTestRagenDur c
   \<and> goroutines (pruneEntries_ackd clock n c) = goroutines c
   \<and> loopDone (pruneEntries_ackd clock n c) = loopDone c
   \<and> spotCheckRunning (pruneEntries_ackd clock n c) = spotCheckRunning c"
proof -
  obtain acks where "pruneEntries_ackd clock n c = c\<lparr>ackdEntries := acks\<rparr>"
    using pruneEntries_ackd_frame by blast
  then show ?thesis by simp
qed

lemma pruneEntries_ok:
  "\<exists>c'. pruneEntries rdr clock c = Inr c'
        \<and> metricTestRagenDur c' = metricTestRagenDur c
        \<and> loopDone c' = loopDone c
        \<and> (goroutines c' = goroutines c
            \<or> (prune_evicted clock c \<noteq> []
                \<and> goroutines c' = goroutines c @ [GoConfirmMissing (prune_evicted clock c)]))"
proof -
  let ?c2 = "c\<lparr>wsMissingEntries := wsMissingEntries c + length (prune_evicted clock c),
                 w := w c @ map (\<lambda>e. ErrEntryNotReceivedWs e (maxWait c)) (prune_evicted clock c),
                 entries := prune_kept clock c\<rparr>"
  note cl = pruneEntries_closed [of rdr clock c, unfolded Let_def]
  show ?thesis
  proof (cases "prune_evicted clock c = []")
    case True
    then show ?thesis using cl by (simp add: pruneEntries_ackd_fields)
  next
    case False
    show ?thesis
    proof (cases "confirmAsync c")
      case True
      then show ?thesis using cl False by (simp add: pruneEntries_ackd_fields)
    next
      case sync: False
      obtain c3 where c3: "confirmMissing rdr ?c2 (prune_evicted clock c) = Inr c3"
        using confirmMissing_nonempty [OF False] by blast
      have "pruneEntries rdr clock c = Inr (pruneEntries_ackd clock (length (entries c)) c3)"
        using cl False sync c3 by simp
      then show ?thesis using confirmMissing_frame [OF c3] by (simp add: pruneEntries_ackd_fields)
    qed
  qed
qed

lemma run_goroutine_ok:
  assumes "g \<noteq> GoConfirmMissing []"
  shows "\<exists>c'. run_goroutine rdr g c = Inr c'
          \<and> metricTestRagenDur c' = metricTestRagenDur c
          \<and> goroutines c' = goroutines c \<and> loopDone c' = loopDone c"
proof (cases g)
  case (GoConfirmMissing ms)
  then have "ms \<noteq> []" using assms by simp
  then obtain c' where c': "confirmMissing rdr c ms = Inr c'"
    using confirmMissing_nonempty by blast
  then show ?thesis using GoConfirmMissing confirmMissing_frame [OF c']
    by (simp add: run_goroutine_def)
next
  case (GoSpotCheckEntries currTime)
  then show ?thesis by (simp add: run_goroutine_def spotCheckEntries_frame)
next
  case GoMetricTest
  then show ?thesis by (simp add: run_goroutine_def metricTest_frame)
qed

lemma step_ok:
  assumes "confirms_nonempty c"
  shows "\<exists>c'. step rdr ev c = Inr c' \<and> confirms_nonempty c'
          \<and> metricTestRagenDur c' = metricTestRagenDur c"
proof (cases ev)
  case (EvRecv e)
  then show ?thesis using assms
    by (simp add: step_def confirms_nonempty_def entryReceived_frame)
next
  case (EvSent e)
  then show ?thesis using assms
    by (simp add: step_def confirms_nonempty_def entrySent_frame)
next
  case (EvPruneTick clock now)
  obtain c1 where c1: "pruneEntries rdr clock c = Inr c1"
     "metricTestRagenDur c1 = metricTestRagenDur c"
     "goroutines c1 = goroutines c
        \<or> (prune_evicted clock c \<noteq> []
            \<and> goroutines c1 = goroutines c @ [GoConfirmMissing (prune_evicted clock c)])"
    using pruneEntries_ok [of rdr clock c] by blast
  have "confirms_nonempty c1"
    using assms c1(3) by (auto simp: confirms_nonempty_def)
  then show ?thesis using EvPruneTick c1(1,2) assms
    by (simp add: step_def confirms_nonempty_def)
next
  case EvMetricTick
  then show ?thesis using assms by (simp add: step_def confirms_nonempty_def)
next
  case EvQuit
  then show ?thesis using assms by (simp add: step_def confirms_nonempty_def)
next
  case (EvGo n)
  show ?thesis
  proof (cases "n < length (goroutines c)")
    case False
    then show ?thesis using EvGo assms by (simp add: step_def)
  next
    case True
    let ?c0 = "c\<lparr>goroutines := take n (goroutines c) @ drop (Suc n) (goroutines c)\<rparr>"
    have "goroutines c ! n \<in> set (goroutines c)" using True by simp
    then have g: "goroutines c ! n \<noteq> GoConfirmMissing []"
      using assms by (auto simp: confirms_nonempty_def)
    obtain c' where c': "run_goroutine rdr (goroutines c ! n) ?c0 = Inr c'"
      "metricTestRagenDur c' = metricTestRagenDur ?c0" "goroutines c' = goroutines ?c0"
      using run_goroutine_ok [OF g, of rdr ?c0] by blast
    have "set (goroutines c') \<subseteq> set (goroutines c)"
      using c'(3) by (auto dest: in_set_takeD in_set_dropD)
    then have "confirms_nonempty c'" using assms by (auto simp: confirms_nonempty_def)
    then show ?thesis using EvGo True c'(1,2) by (simp add: step_def)
  qed
qed

lemma run_loop_ok:
  "confirms_nonempty c \<Longrightarrow>
   \<exists>c'. run_loop rdr evs c = Inr c' \<and> confirms_nonempty c'
        \<and> metricTestRagenDur c' = metricTestRagenDur c"
proof (induction evs arbitrary: c)
  case Nil
  then show ?case by simp
next
  case (Cons ev evs)
  obtain c1 where c1: "step rdr ev c = Inr c1" "confirms_nonempty c1"
      "metricTestRagenDur c1 = metricTestRagenDur c"
    using step_ok [OF Cons.prems] by blast
  from Cons.IH [OF c1(2)] c1 show ?case by simp
qed

lemma run_cases:
  "run rdr evs c = Inl NonPositiveInterval \<or> run rdr evs c = run_loop rdr evs c"
  by (simp add: run_def)

lemma NewComparator_fields:
  "goroutines (NewComparator P wr a b c d e r f g) = []"
  "metricTestRagenDur (NewComparator P wr a b c d e r f g)
     = (case P r of Inl err \<Rightarrow> 0 | Inr dur \<Rightarrow> dur)"
  "w (NewComparator P wr a b c d e r f g)
     = (case P r of Inl err \<Rightarrow> wr @ [ErrParseMetricTestRange err] | Inr dur \<Rightarrow> wr)"
  by (simp_all add: NewComparator_def Let_def split: sum.split)

lemma metricTest_disabled:
  "metricTestRagenDur c = 0 \<Longrightarrow>
   metricTest rdr c = c\<lparr>w := w c @ [ErrInvalidMetricTestRange], metricTestRunning := False\<rparr>"
  by (simp add: metricTest_def)

lemma effects_entryReceived_match:
  "fst (effects (\<lambda>i e. Equal ts e) entryReceived_match xs n (m, c))
     = (m \<or> (\<exists>i<n. Equal ts (xs ! i)))
   \<and> outOfOrderEntries (snd (effects (\<lambda>i e. Equal ts e) entryReceived_match xs n (m, c)))
     = outOfOrderEntries c + length (filter (\<lambda>i. 0 < i \<and> Equal ts (xs ! i)) [0..<n])
   \<and> duplicateEntries (snd (effects (\<lambda>i e. Equal ts e) entryReceived_match xs n (m, c)))
     = duplicateEntries c
   \<and> unexpectedEntries (snd (effects (\<lambda>i e. Equal ts e) entryReceived_match xs n (m, c)))
     = unexpectedEntries c"
proof (induction n)
  case 0
  then show ?case by (simp add: effects_0)
next
  case (Suc n)
  then show ?case
    by (auto simp: effects_Suc entryReceived_match_def split_def Let_def less_Suc_eq)
qed

lemma entryReceived_matched:
  assumes "ts \<in> set (entries c)"
  shows "outOfOrderEntries (entryReceived c ts)
           = outOfOrderEntries c
             + length (filter (\<lambda>i. 0 < i \<and> entries c ! i = ts) [0..<length (entries c)])
         \<and> duplicateEntries (entryReceived c ts) = duplicateEntries c
         \<and> unexpectedEntries (entryReceived c ts) = unexpectedEntries c"
proof -
  let ?b = "effects (\<lambda>i e. Equal ts e) entryReceived_match (entries c) (length (entries c)) (False, c)"
  note e = effects_entryReceived_match [of ts "entries c" "length (entries c)" False c]
  have "\<exists>i<length (entries c). Equal ts (entries c ! i)"
    using assms by (auto simp: in_set_conv_nth Equal_def)
  then have m: "fst ?b" using e by simp
  have eq: "(\<lambda>i. 0 < i \<and> Equal ts (entries c ! i)) = (\<lambda>i. 0 < i \<and> entries c ! i = ts)"
    by (auto simp: Equal_def)
  show ?thesis
    using m e by (simp add: entryReceived_def compact_eq split_def Let_def eq)
qed

lemma counters_entryReceived_once:
  assumes "length (filter (Equal ts) (entries c)) \<le> 1"
  shows "(outOfOrderEntries (entryReceived c ts), duplicateEntries (entryReceived c ts),
          unexpectedEntries (entryReceived c ts)) =
         (if ts \<in> set (entries c) then
            (if hd (entries c) = ts
             then (outOfOrderEntries c, duplicateEntries c, unexpectedEntries c)
             else (outOfOrderEntries c + 1, duplicateEntries c, unexpectedEntries c))
          else if ts \<in> set (ackdEntries c)
          then (outOfOrderEntries c, duplicateEntries c + 1, unexpectedEntries c)
          else (outOfOrderEntries c, duplicateEntries c, unexpectedEntries c + 1))"
proof (cases "ts \<in> set (entries c)")
  case False
  then show ?thesis by (simp add: entryReceived_unmatched)
next
  case True
  then obtain ys zs where split: "entries c = ys @ ts # zs" "ts \<notin> set ys"
    by (meson split_list_first)
  have zs: "ts \<notin> set zs"
  proof
    assume "ts \<in> set zs"
    then have "filter (Equal ts) zs \<noteq> []" by (auto simp: filter_empty_conv Equal_def)
    then have "0 < length (filter (Equal ts) zs)" by simp
    then show False using assms split(1) by (simp add: Equal_def)
  qed
  have hd: "(hd (entries c) = ts) = (ys = [])"
    using split by (cases ys) auto
  show ?thesis
    using True hd by (simp add: entryReceived_matched_once [OF split zs] Let_def)
qed

section \<open>The claims\<close>

subsection \<open>entryReceived\<close>

text \<open>
  C3, as amended. A call of \<^verbatim>\<open>entryReceived\<close> never changes two of the three counters.
  With no pending entry equal to \<open>ts\<close> it adds one to the duplicate counter when \<open>ts\<close> is
  acknowledged and one to the unexpected counter otherwise. With a pending entry equal to
  \<open>ts\<close> it changes the out-of-order counter only, by one for every pending entry equal to
  \<open>ts\<close> at an index other than 0. Hence, when at most one pending entry equals \<open>ts\<close>, the
  call falls in exactly one of the four classes: a match at index 0 changes no counter, a
  match at another index adds one to the out-of-order counter, and the other two are as
  above.
\<close>

theorem entryReceived_one_counter:
  "(outOfOrderEntries (entryReceived c ts), duplicateEntries (entryReceived c ts),
    unexpectedEntries (entryReceived c ts)) =
     (if ts \<in> set (entries c) then
        (outOfOrderEntries c
           + length (filter (\<lambda>i. 0 < i \<and> entries c ! i = ts) [0..<length (entries c)]),
         duplicateEntries c, unexpectedEntries c)
      else if ts \<in> set (ackdEntries c)
      then (outOfOrderEntries c, duplicateEntries c + 1, unexpectedEntries c)
      else (outOfOrderEntries c, duplicateEntries c, unexpectedEntries c + 1))
   \<and> (length (filter (Equal ts) (entries c)) \<le> 1 \<longrightarrow>
        (outOfOrderEntries (entryReceived c ts), duplicateEntries (entryReceived c ts),
         unexpectedEntries (entryReceived c ts)) =
          (if ts \<in> set (entries c) then
             (if hd (entries c) = ts
              then (outOfOrderEntries c, duplicateEntries c, unexpectedEntries c)
              else (outOfOrderEntries c + 1, duplicateEntries c, unexpectedEntries c))
           else if ts \<in> set (ackdEntries c)
           then (outOfOrderEntries c, duplicateEntries c + 1, unexpectedEntries c)
           else (outOfOrderEntries c, duplicateEntries c, unexpectedEntries c + 1)))"
proof (intro conjI impI)
  show "(outOfOrderEntries (entryReceived c ts), duplicateEntries (entryReceived c ts),
    unexpectedEntries (entryReceived c ts)) =
     (if ts \<in> set (entries c) then
        (outOfOrderEntries c
           + length (filter (\<lambda>i. 0 < i \<and> entries c ! i = ts) [0..<length (entries c)]),
         duplicateEntries c, unexpectedEntries c)
      else if ts \<in> set (ackdEntries c)
      then (outOfOrderEntries c, duplicateEntries c + 1, unexpectedEntries c)
      else (outOfOrderEntries c, duplicateEntries c, unexpectedEntries c + 1))"
  proof (cases "ts \<in> set (entries c)")
    case True
    then show ?thesis using entryReceived_matched [OF True] by simp
  next
    case False
    then show ?thesis by (simp add: entryReceived_unmatched)
  qed
qed (rule counters_entryReceived_once)

text \<open>The amended C3 on the sample comparator after two sends, the second one received.\<close>

theorem entryReceived_one_counter_witness:
  "length (filter (Equal 2) (entries (entrySent (entrySent sample 1) 2))) \<le> 1
   \<and> (outOfOrderEntries (entryReceived (entrySent (entrySent sample 1) 2) 2),
       duplicateEntries (entryReceived (entrySent (entrySent sample 1) 2) 2),
       unexpectedEntries (entryReceived (entrySent (entrySent sample 1) 2) 2)) = (1, 0, 0)"
  using entryReceived_one_counter [of "entrySent (entrySent sample 1) 2" 2]
  by (simp add: entries_entrySent counters_entrySent ackdEntries_entrySent sample_fields Equal_def)

text \<open>
  C3 as stated fails: with the timestamp 2 sent twice after the timestamp 1, one call of
  \<^verbatim>\<open>entryReceived\<close> adds two to the out-of-order counter.
\<close>

theorem entryReceived_two_out_of_order:
  "outOfOrderEntries (entrySent (entrySent (entrySent sample 1) 2) 2) = 0
   \<and> outOfOrderEntries (entryReceived (entrySent (entrySent (entrySent sample 1) 2) 2) 2) = 2"
  by (simp add: sample_def NewComparator_def sampleParse_def entrySent_def entryReceived_def
        compact_def compact_step_def entryReceived_match_def Equal_def Sub_def Second_def
        maxDuration_def minDuration_def Let_def)

text \<open>
  C4. From an empty pending buffer, after \<open>t1\<close>, \<open>t2\<close>, \<open>t3\<close> are sent in this order
  with \<open>t1 < t2 < t3\<close> and \<open>t2\<close> is received, the out-of-order counter has grown by
  exactly one and the pending buffer is \<open>[t1, t3]\<close>.
\<close>

theorem entryReceived_middle_of_three:
  assumes "entries c = []" "t1 < t2" "t2 < t3"
  shows "outOfOrderEntries (entryReceived (entrySent (entrySent (entrySent c t1) t2) t3) t2)
           = outOfOrderEntries c + 1
         \<and> entries (entryReceived (entrySent (entrySent (entrySent c t1) t2) t3) t2) = [t1, t3]"
proof -
  let ?c = "entrySent (entrySent (entrySent c t1) t2) t3"
  have e: "entries ?c = [t1] @ t2 # [t3]"
    using assms(1) by (simp add: entries_entrySent)
  have "t2 \<notin> set [t1]" "t2 \<notin> set [t3]" using assms by auto
  from entryReceived_matched_once [OF e this] show ?thesis
    by (simp add: Let_def counters_entrySent)
qed

text \<open>C4 on the sample comparator, with the timestamps 1, 2 and 3.\<close>

theorem entryReceived_middle_of_three_witness:
  "entries sample = [] \<and> (1::int) < 2 \<and> (2::int) < 3
   \<and> outOfOrderEntries (entryReceived (entrySent (entrySent (entrySent sample 1) 2) 3) 2) = 1
   \<and> entries (entryReceived (entrySent (entrySent (entrySent sample 1) 2) 3) 2) = [1, 3]"
  using entryReceived_middle_of_three [of sample 1 2 3]
  by (simp add: sample_fields)

text \<open>
  C5. When \<open>ts\<close> is in neither the pending nor the acknowledged buffer,
  \<^verbatim>\<open>entryReceived\<close> writes the line of an unexpected entry, adds one to the unexpected
  counter and changes nothing else: the duplicate counter and both buffers are as before.
\<close>

theorem entryReceived_never_sent:
  assumes "ts \<notin> set (entries c)" "ts \<notin> set (ackdEntries c)"
  shows "entryReceived c ts =
           c\<lparr>w := w c @ [ErrUnexpectedEntry ts], unexpectedEntries := unexpectedEntries c + 1\<rparr>"
  using assms by (simp add: entryReceived_unmatched)

text \<open>C5 on the sample comparator with the timestamp 1 pending and 7 received.\<close>

theorem entryReceived_never_sent_witness:
  "7 \<notin> set (entries (entrySent sample 1)) \<and> 7 \<notin> set (ackdEntries (entrySent sample 1))
   \<and> unexpectedEntries (entryReceived (entrySent sample 1) 7) = 1
   \<and> duplicateEntries (entryReceived (entrySent sample 1) 7) = 0
   \<and> entries (entryReceived (entrySent sample 1) 7) = [1]
   \<and> ackdEntries (entryReceived (entrySent sample 1) 7) = []"
  using entryReceived_never_sent [of 7 "entrySent sample 1"]
  by (simp add: entries_entrySent ackdEntries_entrySent counters_entrySent sample_fields)

text \<open>
  C6. When \<open>t1\<close> is not pending and is then sent once, the first \<^verbatim>\<open>entryReceived\<close> of
  \<open>t1\<close> takes it out of the pending buffer and appends it to the acknowledged buffer;
  the second one adds one to the duplicate counter and leaves the unexpected counter
  where it was before the two calls.
\<close>

theorem entryReceived_twice:
  assumes "t1 \<notin> set (entries c)"
  shows "entries (entryReceived (entrySent c t1) t1) = entries c
         \<and> ackdEntries (entryReceived (entrySent c t1) t1) = ackdEntries c @ [t1]
         \<and> duplicateEntries (entryReceived (entryReceived (entrySent c t1) t1) t1)
             = duplicateEntries (entryReceived (entrySent c t1) t1) + 1
         \<and> duplicateEntries (entryReceived (entrySent c t1) t1) = duplicateEntries c
         \<and> unexpectedEntries (entryReceived (entryReceived (entrySent c t1) t1) t1)
             = unexpectedEntries c
         \<and> unexpectedEntries (entryReceived (entrySent c t1) t1) = unexpectedEntries c"
proof -
  let ?c1 = "entrySent c t1"
  let ?c2 = "entryReceived ?c1 t1"
  have e: "entries ?c1 = entries c @ t1 # []" by (simp add: entries_entrySent)
  have nil: "t1 \<notin> set []" by simp
  note first = entryReceived_matched_once [OF e assms nil]
  have e2: "entries ?c2 = entries c" using first by (simp add: Let_def)
  have a2: "ackdEntries ?c2 = ackdEntries c @ [t1]"
    using first by (simp add: Let_def ackdEntries_entrySent)
  have u2: "unexpectedEntries ?c2 = unexpectedEntries c"
    using first by (simp add: Let_def counters_entrySent)
  have d2: "duplicateEntries ?c2 = duplicateEntries c"
    using first by (simp add: Let_def counters_entrySent)
  have "t1 \<notin> set (entries ?c2)" using e2 assms by simp
  then have second: "entryReceived ?c2 t1 =
      ?c2\<lparr>duplicateEntries := duplicateEntries ?c2 + 1, w := w ?c2 @ [ErrDuplicateEntry t1]\<rparr>"
    using a2 by (simp add: entryReceived_unmatched)
  show ?thesis using e2 a2 u2 d2 by (simp add: second)
qed

text \<open>C6 on the sample comparator with the timestamp 1.\<close>

theorem entryReceived_twice_witness:
  "1 \<notin> set (entries sample)
   \<and> entries (entryReceived (entrySent sample 1) 1) = []
   \<and> ackdEntries (entryReceived (entrySent sample 1) 1) = [1]
   \<and> duplicateEntries (entryReceived (entryReceived (entrySent sample 1) 1) 1) = 1
   \<and> unexpectedEntries (entryReceived (entryReceived (entrySent sample 1) 1) 1) = 0"
  using entryReceived_twice [of 1 sample]
  by (simp add: sample_fields)

subsection \<open>pruneEntries and confirmMissing\<close>

text \<open>
  C7. For a non-empty batch whose query succeeds, \<^verbatim>\<open>confirmMissing\<close> adds to the
  confirmed-missing counter the number of batch timestamps that are absent from the query
  result, once each and nothing for those present, and writes one line for each of them
  after the debug lines. A call of \<^verbatim>\<open>pruneEntries\<close> takes out of the pending buffer
  exactly the entries that are before the clock minus \<^verbatim>\<open>maxWait\<close> (the clock being read
  anew for every entry), keeps the others in order, and, when some entry was taken out,
  hands the evicted entries to \<^verbatim>\<open>confirmMissing\<close>: by a call when confirmation is
  synchronous, by a goroutine otherwise. With a clock that stands at \<open>now\<close>, the evicted
  entries are those before \<open>now\<close> minus \<^verbatim>\<open>maxWait\<close>.
\<close>

theorem prune_then_confirm:
  assumes "ms \<noteq> []"
    and "Query rdr (length (calls c)) (Add (hd ms) (- 10 * Second)) (Add (last ms) (10 * Second)) = Inr recvd"
  shows "(\<exists>c'. confirmMissing rdr c ms = Inr c'
            \<and> missingEntries c' = missingEntries c + length (filter (\<lambda>m. m \<notin> set recvd) ms)
            \<and> w c' = w c @ map DebugWebsocketMissingEntry ms @ map DebugQueryResult recvd
                       @ map (\<lambda>e. ErrEntryNotReceived e (maxWait c)) (filter (\<lambda>m. m \<notin> set recvd) ms))
         \<and> pruneEntries rdr' clock d =
             (let d2 = d\<lparr>wsMissingEntries := wsMissingEntries d + length (prune_evicted clock d),
                         w := w d @ map (\<lambda>e. ErrEntryNotReceivedWs e (maxWait d)) (prune_evicted clock d),
                         entries := prune_kept clock d\<rparr>
              in if prune_evicted clock d = []
                 then Inr (pruneEntries_ackd clock (length (entries d)) d2)
                 else if confirmAsync d
                 then Inr (pruneEntries_ackd clock (length (entries d))
                             (d2\<lparr>goroutines := goroutines d @ [GoConfirmMissing (prune_evicted clock d)]\<rparr>))
                 else (case confirmMissing rdr' d2 (prune_evicted clock d) of
                         Inl p \<Rightarrow> Inl p
                       | Inr d3 \<Rightarrow> Inr (pruneEntries_ackd clock (length (entries d)) d3)))
         \<and> (\<forall>d'. pruneEntries rdr' clock d = Inr d' \<longrightarrow> entries d' = prune_kept clock d)
         \<and> prune_evicted (\<lambda>j. now) d = filter (\<lambda>e. Before e (Add now (neg (maxWait d)))) (entries d)
         \<and> prune_kept (\<lambda>j. now) d = filter (\<lambda>e. \<not> Before e (Add now (neg (maxWait d)))) (entries d)"
proof (intro conjI)
  show "\<exists>c'. confirmMissing rdr c ms = Inr c'
            \<and> missingEntries c' = missingEntries c + length (filter (\<lambda>m. m \<notin> set recvd) ms)
            \<and> w c' = w c @ map DebugWebsocketMissingEntry ms @ map DebugQueryResult recvd
                       @ map (\<lambda>e. ErrEntryNotReceived e (maxWait c)) (filter (\<lambda>m. m \<notin> set recvd) ms)"
    by (simp add: confirmMissing_success [OF assms])
  show "\<forall>d'. pruneEntries rdr' clock d = Inr d' \<longrightarrow> entries d' = prune_kept clock d"
    using entries_pruneEntries by blast
qed (rule pruneEntries_closed prune_evicted_const prune_kept_const)+

text \<open>
  C7 on the sample comparator (\<^verbatim>\<open>maxWait\<close> 5s): the timestamp 0 is sent and never
  received, the prune tick is at 6s and the backend returns nothing.
\<close>

theorem prune_then_confirm_witness:
  "[0] \<noteq> ([] :: time list)
   \<and> Query emptyReader (length (calls sample)) (Add (hd [0]) (- 10 * Second))
        (Add (last [0]) (10 * Second)) = Inr []
   \<and> (\<exists>c'. confirmMissing emptyReader sample [0] = Inr c' \<and> missingEntries c' = 1)
   \<and> (\<exists>d'. pruneEntries emptyReader (\<lambda>j. 6 * Second) (entrySent sample 0) = Inr d'
          \<and> entries d' = [] \<and> missingEntries d' = 1 \<and> wsMissingEntries d' = 1)"
proof -
  have q: "Query emptyReader (length (calls sample)) (Add (hd [0]) (- 10 * Second))
        (Add (last [0]) (10 * Second)) = Inr []"
    by (simp add: emptyReader_def)
  have ne: "[0] \<noteq> ([] :: time list)" by simp
  note th = prune_then_confirm [OF ne q, of emptyReader "\<lambda>j. 6 * Second" "entrySent sample 0"
              "6 * Second"]
  have es: "entries (entrySent sample 0) = [0]" "maxWait (entrySent sample 0) = 5 * Second"
    "confirmAsync (entrySent sample 0) = False" "missingEntries (entrySent sample 0) = 0"
    "wsMissingEntries (entrySent sample 0) = 0" "ackdEntries (entrySent sample 0) = []"
    by (simp_all add: entrySent_def Let_def sample_fields)
  have ev: "prune_evicted (\<lambda>j. 6 * Second) (entrySent sample 0) = [0]"
    using th [THEN conjunct2, THEN conjunct2, THEN conjunct2, THEN conjunct1]
    by (simp add: es Before_def Add_def neg_def Second_def minDuration_def)
  have kp: "prune_kept (\<lambda>j. 6 * Second) (entrySent sample 0) = []"
    using th [THEN conjunct2, THEN conjunct2, THEN conjunct2, THEN conjunct2]
    by (simp add: es Before_def Add_def neg_def Second_def minDuration_def)
  have cm: "\<And>c. confirmMissing emptyReader c [0] =
     Inr (c\<lparr>calls := calls c @ [CallQuery (Add 0 (- 10 * Second)) (Add 0 (10 * Second))],
            w := w c @ [DebugWebsocketMissingEntry 0, ErrEntryNotReceived 0 (maxWait c)],
            missingEntries := missingEntries c + 1\<rparr>)"
  proof -
    fix c show "confirmMissing emptyReader c [0] =
     Inr (c\<lparr>calls := calls c @ [CallQuery (Add 0 (- 10 * Second)) (Add 0 (10 * Second))],
            w := w c @ [DebugWebsocketMissingEntry 0, ErrEntryNotReceived 0 (maxWait c)],
            missingEntries := missingEntries c + 1\<rparr>)"
      using confirmMissing_success [of "[0]" emptyReader c "[]"]
      by (simp add: emptyReader_def)
  qed
  have pa: "\<And>clock n c. ackdEntries c = [] \<Longrightarrow> pruneEntries_ackd clock n c = c"
    by (simp add: pruneEntries_ackd_def compact_Nil)
  have p: "\<exists>d'. pruneEntries emptyReader (\<lambda>j. 6 * Second) (entrySent sample 0) = Inr d'
          \<and> entries d' = [] \<and> missingEntries d' = 1 \<and> wsMissingEntries d' = 1"
    unfolding th [THEN conjunct2, THEN conjunct1] ev kp Let_def
    by (simp add: es cm pa)
  have c: "\<exists>c'. confirmMissing emptyReader sample [0] = Inr c' \<and> missingEntries c' = 1"
    using th [THEN conjunct1] by (auto simp: sample_fields)
  show ?thesis using ne q c p by blast
qed

subsection \<open>The spot-check buffer\<close>

text \<open>
  C8. When consecutive entries of the spot-check buffer are at least the sampling interval
  apart, they still are after \<^verbatim>\<open>entrySent\<close>, which appends the timestamp exactly when
  the buffer is empty or the timestamp is at least the interval past the last entry, and
  after the eviction by age of \<^verbatim>\<open>spotCheckEntries\<close>, which keeps exactly the entries
  that are not before the current time minus \<^verbatim>\<open>spotCheckMax\<close>; neither changes the
  interval.
\<close>

theorem spotCheck_spaced:
  assumes "spaced (spotCheckInterval c) (spotCheck c)"
  shows "spotCheck (entrySent c t) =
           (if spotCheck c = [] \<or> spotCheckInterval c \<le> Sub t (last (spotCheck c))
            then spotCheck c @ [t] else spotCheck c)
         \<and> spotCheckInterval (entrySent c t) = spotCheckInterval c
         \<and> spaced (spotCheckInterval c) (spotCheck (entrySent c t))
         \<and> spotCheck (spotCheckEntries rdr now c)
             = filter (\<lambda>e. \<not> Before e (Add now (neg (spotCheckMax c)))) (spotCheck c)
         \<and> spotCheckInterval (spotCheckEntries rdr now c) = spotCheckInterval c
         \<and> spaced (spotCheckInterval c) (spotCheck (spotCheckEntries rdr now c))"
proof -
  have sent: "spotCheck (entrySent c t) =
           (if spotCheck c = [] \<or> spotCheckInterval c \<le> Sub t (last (spotCheck c))
            then spotCheck c @ [t] else spotCheck c)"
    by (simp add: entrySent_def Let_def last_conv_nth)
  have "spaced (spotCheckInterval c) (spotCheck (entrySent c t))"
    unfolding sent using assms spaced_snoc by simp
  moreover have "spotCheckInterval (entrySent c t) = spotCheckInterval c"
    by (simp add: entrySent_def Let_def)
  moreover have "spaced (spotCheckInterval c) (spotCheck (spotCheckEntries rdr now c))"
    unfolding spotCheck_spotCheckEntries using assms by (rule spaced_filter)
  ultimately show ?thesis
    using sent spotCheck_spotCheckEntries spotCheckEntries_frame by simp
qed

text \<open>
  C8 on the sample comparator (sampling interval 15m) with the timestamp 0 sampled: a send
  100ms later is not sampled.
\<close>

theorem spotCheck_spaced_witness:
  "spaced (spotCheckInterval (entrySent sample 0)) (spotCheck (entrySent sample 0))
   \<and> spotCheck (entrySent (entrySent sample 0) 100000000) = [0]
   \<and> spaced (spotCheckInterval (entrySent sample 0))
        (spotCheck (spotCheckEntries emptyReader (20000 * Second) (entrySent sample 0)))"
proof -
  have s: "spotCheck (entrySent sample 0) = [0]"
    "spotCheckInterval (entrySent sample 0) = 900 * Second"
    by (simp_all add: entrySent_def Let_def sample_fields)
  have h: "spaced (spotCheckInterval (entrySent sample 0)) (spotCheck (entrySent sample 0))"
    by (simp add: s)
  show ?thesis
    using h spotCheck_spaced [OF h, of 100000000 emptyReader "20000 * Second"]
    by (simp add: s Sub_def Second_def maxDuration_def minDuration_def)
qed

subsection \<open>metricTest\<close>

text \<open>
  C9. When the range string does not parse, the constructor writes the parse error, and in
  every state that \<^verbatim>\<open>run\<close> reaches afterwards a call of \<^verbatim>\<open>metricTest\<close> writes the
  fixed line, clears its running flag and does nothing else: it makes no call to the
  backend and leaves the deviation gauge as it is.
\<close>

theorem metricTest_unparsed_range:
  assumes "ParseDuration r = Inl err"
    and "run rdr evs (NewComparator ParseDuration wr mw pri sci scm mti r wi ca) = Inr c"
  shows "metricTest rdr' c = c\<lparr>w := w c @ [ErrInvalidMetricTestRange], metricTestRunning := False\<rparr>
         \<and> calls (metricTest rdr' c) = calls c
         \<and> metricTestDeviation (metricTest rdr' c) = metricTestDeviation c
         \<and> w (NewComparator ParseDuration wr mw pri sci scm mti r wi ca) = wr @ [ErrParseMetricTestRange err]"
proof -
  let ?c0 = "NewComparator ParseDuration wr mw pri sci scm mti r wi ca"
  have "confirms_nonempty ?c0" by (simp add: confirms_nonempty_def NewComparator_fields)
  then obtain c' where "run_loop rdr evs ?c0 = Inr c'" "metricTestRagenDur c' = metricTestRagenDur ?c0"
    using run_loop_ok by blast
  moreover have "run_loop rdr evs ?c0 = Inr c"
    using assms(2) run_cases [of rdr evs ?c0] by simp
  ultimately have "metricTestRagenDur c = 0"
    using assms(1) by (simp add: NewComparator_fields)
  then show ?thesis using assms(1) by (simp add: metricTest_disabled NewComparator_fields)
qed

text \<open>
  C9 on the comparator built with the range \<^verbatim>\<open>1d\<close>, in the state after one tick of the
  metric-test ticker.
\<close>

theorem metricTest_unparsed_range_witness:
  "sampleParse ''1d'' = Inl ''time: invalid duration''
   \<and> run emptyReader [EvMetricTick] unparsed
        = Inr (unparsed\<lparr>metricTestRunning := True, goroutines := [GoMetricTest]\<rparr>)
   \<and> calls (metricTest emptyReader (unparsed\<lparr>metricTestRunning := True, goroutines := [GoMetricTest]\<rparr>)) = []
   \<and> metricTestDeviation
        (metricTest emptyReader (unparsed\<lparr>metricTestRunning := True, goroutines := [GoMetricTest]\<rparr>))
       = Finite 0
   \<and> w (metricTest emptyReader (unparsed\<lparr>metricTestRunning := True, goroutines := [GoMetricTest]\<rparr>))
       = [ErrParseMetricTestRange ''time: invalid duration'', ErrInvalidMetricTestRange]"
proof -
  have p: "sampleParse ''1d'' = Inl ''time: invalid duration''"
    by (simp add: sampleParse_def)
  have u: "metricTestRunning unparsed = False" "goroutines unparsed = []" "loopDone unparsed = False"
    "calls unparsed = []" "metricTestDeviation unparsed = Finite 0"
    "pruneInterval unparsed = Second" "metricTestInterval unparsed = 3600 * Second"
    "w unparsed = [ErrParseMetricTestRange ''time: invalid duration'']"
    by (simp_all add: unparsed_def NewComparator_def sampleParse_def)
  have r: "run emptyReader [EvMetricTick] unparsed
        = Inr (unparsed\<lparr>metricTestRunning := True, goroutines := [GoMetricTest]\<rparr>)"
    by (simp add: run_def step_def u Second_def)
  show ?thesis
    using p r metricTest_unparsed_range [OF p r [unfolded unparsed_def], of emptyReader,
        folded unparsed_def]
    by (simp add: u)
qed

text \<open>
  C2. The code differs from the claim. On the sample comparator (range 24h, one write per
  second, gauge at 0) with a backend whose count query returns an error and the count 0,
  \<^verbatim>\<open>metricTest\<close> writes the error and then sets the gauge to 86400: after the test of
  \<^verbatim>\<open>err\<close> it goes on to the computation of the deviation.
\<close>

theorem metricTest_query_error:
  "metricTestDeviation sample = Finite 0
   \<and> QueryCountOverTime failingReader (length (calls sample)) (metricTestRange sample)
       = (Finite 0, Some ''connection refused'')
   \<and> w (metricTest failingReader sample) = [ErrMetricQueryTest ''connection refused'']
   \<and> metricTestDeviation (metricTest failingReader sample) = Finite 86400"
  by (simp add: metricTest_def sample_fields failingReader_def Let_def Milliseconds_def
        fdiv_int_def Second_def)

subsection \<open>spotCheckEntries\<close>

text \<open>
  C1. The code differs from the claim in the range. For a spot-check entry \<open>sce\<close> the
  query is made from \<open>sce - 10s\<close> to \<open>sce\<close>: the end is taken 10s after the start, which
  was moved 10s back before. When the query succeeds, the spot-check-missing counter
  grows by one exactly when \<open>sce\<close> is not in the result, and an error leaves it as it is.
  On the sample comparator with the entry at 100s, the query is from 90s to 100s and not
  to 110s.
\<close>

theorem spotCheckEntries_query_range:
  "calls (spotCheck_loop rdr currTime [sce] c) = calls c @ [CallQuery (sce - 10 * Second) sce]
   \<and> spotCheckMissing (spotCheck_loop rdr currTime [sce] c) =
       (case Query rdr (length (calls c)) (sce - 10 * Second) sce of
          Inl err \<Rightarrow> spotCheckMissing c
        | Inr recvd \<Rightarrow> if sce \<in> set recvd then spotCheckMissing c else spotCheckMissing c + 1)
   \<and> calls (spotCheckEntries emptyReader (105 * Second) (entrySent sample (100 * Second)))
       = [CallQuery (90 * Second) (100 * Second)]
   \<and> CallQuery (90 * Second) (100 * Second) \<noteq> CallQuery (90 * Second) (110 * Second)"
proof -
  have a: "calls (spotCheck_loop rdr currTime [sce] c) = calls c @ [CallQuery (sce - 10 * Second) sce]"
    by (simp add: Let_def Add_def split: sum.split)
  have m: "spotCheckMissing (spotCheck_loop rdr currTime [sce] c) =
       (case Query rdr (length (calls c)) (sce - 10 * Second) sce of
          Inl err \<Rightarrow> spotCheckMissing c
        | Inr recvd \<Rightarrow> if sce \<in> set recvd then spotCheckMissing c else spotCheckMissing c + 1)"
    by (simp add: Let_def Add_def spotCheck_found_set split: sum.split)
  have b: "calls (spotCheckEntries emptyReader (105 * Second) (entrySent sample (100 * Second)))
       = [CallQuery (90 * Second) (100 * Second)]"
    by (simp add: spotCheckEntries_def compact_def compact_step_def entrySent_def sample_fields
          Let_def Before_def Add_def neg_def minDuration_def Second_def emptyReader_def)
  show ?thesis using a m b by (simp add: Second_def)
qed

subsection \<open>No panic\<close>

text \<open>
  C10. \<^verbatim>\<open>confirmMissing\<close> panics with an index out of range exactly on the empty slice.
  \<^verbatim>\<open>pruneEntries\<close>, which calls it or starts it as a goroutine only for a non-empty
  slice, never panics; no sequence of events makes the loop of a new comparator panic or
  leaves a \<^verbatim>\<open>confirmMissing\<close> goroutine with an empty slice, so \<^verbatim>\<open>run\<close> never panics
  with an index out of range.
\<close>

theorem confirmMissing_in_bounds:
  "(confirmMissing rdr c ms = Inl IndexOutOfRange) = (ms = [])
   \<and> (\<exists>c'. pruneEntries rdr clock c = Inr c')
   \<and> (\<exists>c'. run_loop rdr evs (NewComparator ParseDuration wr mw pri sci scm mti r wi ca) = Inr c'
          \<and> GoConfirmMissing [] \<notin> set (goroutines c'))
   \<and> run rdr evs (NewComparator ParseDuration wr mw pri sci scm mti r wi ca) \<noteq> Inl IndexOutOfRange"
proof -
  have a: "(confirmMissing rdr c ms = Inl IndexOutOfRange) = (ms = [])"
  proof (cases "ms = []")
    case True
    then show ?thesis by (simp add: confirmMissing_empty)
  next
    case False
    then obtain c' where "confirmMissing rdr c ms = Inr c'"
      using confirmMissing_nonempty by blast
    then show ?thesis using False by simp
  qed
  have b: "\<exists>c'. pruneEntries rdr clock c = Inr c'"
    using pruneEntries_ok [of rdr clock c] by blast
  let ?c0 = "NewComparator ParseDuration wr mw pri sci scm mti r wi ca"
  have "confirms_nonempty ?c0" by (simp add: confirms_nonempty_def NewComparator_fields)
  then have l: "\<exists>c'. run_loop rdr evs ?c0 = Inr c' \<and> GoConfirmMissing [] \<notin> set (goroutines c')"
    using run_loop_ok [of ?c0 rdr evs] by (auto simp: confirms_nonempty_def)
  then have "run rdr evs ?c0 \<noteq> Inl IndexOutOfRange"
    using run_cases [of rdr evs ?c0] by auto
  then show ?thesis using a b l by blast
qed

end
